theory Spec2Isabelle
  imports Main
begin

section \<open>The trajectory playback scheduler of the example notebook\<close>

text \<open>
  The class \<^verbatim>\<open>TrajectoryPlayback\<close> of \<^verbatim>\<open>examples/rosetta_interactive_sim.ipynb\<close>
  owns a list of frames, a cyclic frame index, a cancellation flag, a thread pool with one
  thread and a handle on the task last submitted to that pool. The model below keeps the
  object's fields in a record, runs every method as a function on that record and makes
  the pool's single thread an explicit small-step machine, so that the moves of the
  background worker can be interleaved with the calls of the controlling thread. For
  threads that call \<^verbatim>\<open>play()\<close> at the same time, \<^verbatim>\<open>play()\<close> is a small-step machine too.
\<close>

subsection \<open>Exceptions and outcomes\<close>

text \<open>
  The exceptions the code can meet: \<^verbatim>\<open>RuntimeError\<close> raised by \<^verbatim>\<open>run_playback\<close>,
  \<^verbatim>\<open>IndexError\<close> of a list read out of range, \<^verbatim>\<open>ZeroDivisionError\<close> of \<^verbatim>\<open>%\<close>,
  \<^verbatim>\<open>CancelledError\<close> of \<^verbatim>\<open>Future.result\<close>, and whatever the external frame sink raises.
\<close>

datatype error = RuntimeError | IndexError | ZeroDivisionError | CancelledError | SinkError

text \<open>A call either returns or raises; the state it leaves is kept in both cases.\<close>

datatype outcome = Returned | Raised error

subsection \<open>Futures and the pool\<close>

text \<open>
  Where the worker stands inside \<^verbatim>\<open>_run\<close> and the \<^verbatim>\<open>_step_one_frame\<close> it calls: each
  label is the statement it executes next.
  \<^verbatim>\<open>
    def _run(self):
        while not self._cancelled:          # AtCheck
            self._step_one_frame()
            sleep( 1 / playback_fps)        # AtSleep
        self._cancelled = False             # AtClear

    def _step_one_frame(self):
        narupa_server.frame_publisher.send_frame(self.frame_index, self.frames[self.frame_index])   # AtStep
        self.frame_index = (self.frame_index + 1) % len(self.frames)                               # AtAdvance
  \<close>
\<close>

datatype pc = AtCheck | AtStep | AtAdvance | AtSleep | AtClear

text \<open>
  A \<^verbatim>\<open>concurrent.futures.Future\<close>: waiting in the pool's queue, being run, finished
  (with the exception it died of, if any), or cancelled.
\<close>

datatype future = Pending | Running pc | Finished outcome | Cancelled

fun fut_cancelled :: "future \<Rightarrow> bool" where
  "fut_cancelled Cancelled = True"
| "fut_cancelled _ = False"

fun fut_done :: "future \<Rightarrow> bool" where
  "fut_done (Finished _) = True"
| "fut_done Cancelled = True"
| "fut_done _ = False"

text \<open>
  The frame sink \<^verbatim>\<open>narupa_server.frame_publisher.send_frame\<close> is an external
  collaborator. It is a parameter of the model: given what it has received so far, the
  sequence number and the frame, it accepts or raises.
\<close>

type_synonym 'f sink = "(int \<times> 'f) list \<Rightarrow> int \<Rightarrow> 'f \<Rightarrow> outcome"

subsection \<open>The object\<close>

text \<open>
  \<open>threads\<close> is the pool \<^verbatim>\<open>ThreadPoolExecutor(max_workers=1)\<close>: every future submitted,
  in submission order. \<open>run_task\<close> is \<^verbatim>\<open>self._run_task\<close>, a reference into the pool.
  \<open>cancelled\<close> is \<^verbatim>\<open>self._cancelled\<close>. \<open>sent\<close> is not a field of the object: it records
  what the sink has accepted, in order. The reentrant lock \<^verbatim>\<open>_cancel_lock\<close> is taken and
  released inside one call of the controlling thread and has no state between calls.
\<close>

record 'f playback =
  threads :: "future list"
  run_task :: "nat option"
  cancelled :: bool
  frame_index :: int
  frames :: "'f list"
  sent :: "(int \<times> 'f) list"

definition init :: "'f list \<Rightarrow> 'f playback" where
  "init all_framedata =
     \<lparr>threads = [], run_task = None, cancelled = False, frame_index = 0,
      frames = all_framedata, sent = []\<rparr>"

definition is_running :: "'f playback \<Rightarrow> bool" where
  "is_running s =
     (case run_task s of
        None \<Rightarrow> False
      | Some t \<Rightarrow> \<not> (fut_cancelled (threads s ! t) \<or> fut_done (threads s ! t)))"

subsection \<open>One emission and one advance\<close>

text \<open>Python list indexing: a negative index counts from the end, out of range raises.\<close>

definition getitem :: "'a list \<Rightarrow> int \<Rightarrow> error + 'a" where
  "getitem xs i =
     (if 0 \<le> i \<and> i < int (length xs) then Inr (xs ! nat i)
      else if - int (length xs) \<le> i \<and> i < 0 then Inr (xs ! nat (int (length xs) + i))
      else Inl IndexError)"

text \<open>Python's \<^verbatim>\<open>%\<close> on integers: floored, as \<open>mod\<close> on \<open>int\<close>, and raising on zero.\<close>

definition py_mod :: "int \<Rightarrow> int \<Rightarrow> error + int" where
  "py_mod a b = (if b = 0 then Inl ZeroDivisionError else Inr (a mod b))"

definition send_frame :: "'f sink \<Rightarrow> int \<Rightarrow> 'f \<Rightarrow> 'f playback \<Rightarrow> outcome \<times> 'f playback" where
  "send_frame snk i f s =
     (case snk (sent s) i f of
        Raised e \<Rightarrow> (Raised e, s)
      | Returned \<Rightarrow> (Returned, s\<lparr>sent := sent s @ [(i, f)]\<rparr>))"

text \<open>
  \<^verbatim>\<open>
    def _step_one_frame(self):
        narupa_server.frame_publisher.send_frame(self.frame_index, self.frames[self.frame_index])
        self.frame_index = (self.frame_index + 1) % len(self.frames)
  \<close>
\<close>

definition step_one_frame :: "'f sink \<Rightarrow> 'f playback \<Rightarrow> outcome \<times> 'f playback" where
  "step_one_frame snk s =
     (case getitem (frames s) (frame_index s) of
        Inl e \<Rightarrow> (Raised e, s)
      | Inr f \<Rightarrow>
          (case send_frame snk (frame_index s) f s of
             (Raised e, s1) \<Rightarrow> (Raised e, s1)
           | (Returned, s1) \<Rightarrow>
               (case py_mod (frame_index s1 + 1) (int (length (frames s1))) of
                  Inl e \<Rightarrow> (Raised e, s1)
                | Inr j \<Rightarrow> (Returned, s1\<lparr>frame_index := j\<rparr>))))"

text \<open>
  The two statements of \<^verbatim>\<open>_step_one_frame\<close>, each by itself: another thread can run
  between them.
\<close>

definition send_current :: "'f sink \<Rightarrow> 'f playback \<Rightarrow> outcome \<times> 'f playback" where
  "send_current snk s =
     (case getitem (frames s) (frame_index s) of
        Inl e \<Rightarrow> (Raised e, s)
      | Inr f \<Rightarrow> send_frame snk (frame_index s) f s)"

definition advance_index :: "'f playback \<Rightarrow> outcome \<times> 'f playback" where
  "advance_index s =
     (case py_mod (frame_index s + 1) (int (length (frames s))) of
        Inl e \<Rightarrow> (Raised e, s)
      | Inr j \<Rightarrow> (Returned, s\<lparr>frame_index := j\<rparr>))"

subsection \<open>The worker thread\<close>

text \<open>
  The pool has one thread: it takes the oldest future that is not done and runs it to its
  end before it takes the next one.
\<close>

fun next_work :: "future list \<Rightarrow> nat option" where
  "next_work [] = None"
| "next_work (f # fs) = (if fut_done f then map_option Suc (next_work fs) else Some 0)"

text \<open>
  One move of the pool's thread: start the future it took, or run one statement of
  \<^verbatim>\<open>_run\<close> or of the \<^verbatim>\<open>_step_one_frame\<close> inside it. An exception leaving \<^verbatim>\<open>_run\<close> is
  stored in the future. With no work the thread idles.
\<close>

definition worker_step :: "'f sink \<Rightarrow> 'f playback \<Rightarrow> 'f playback" where
  "worker_step snk s =
     (case next_work (threads s) of
        None \<Rightarrow> s
      | Some t \<Rightarrow>
          (case threads s ! t of
             Pending \<Rightarrow> s\<lparr>threads := (threads s)[t := Running AtCheck]\<rparr>
           | Running AtCheck \<Rightarrow>
               (if \<not> cancelled s then s\<lparr>threads := (threads s)[t := Running AtStep]\<rparr>
                else s\<lparr>threads := (threads s)[t := Running AtClear]\<rparr>)
           | Running AtStep \<Rightarrow>
               (case send_current snk s of
                  (Raised e, s1) \<Rightarrow> s1\<lparr>threads := (threads s1)[t := Finished (Raised e)]\<rparr>
                | (Returned, s1) \<Rightarrow> s1\<lparr>threads := (threads s1)[t := Running AtAdvance]\<rparr>)
           | Running AtAdvance \<Rightarrow>
               (case advance_index s of
                  (Raised e, s1) \<Rightarrow> s1\<lparr>threads := (threads s1)[t := Finished (Raised e)]\<rparr>
                | (Returned, s1) \<Rightarrow> s1\<lparr>threads := (threads s1)[t := Running AtSleep]\<rparr>)
           | Running AtSleep \<Rightarrow> s\<lparr>threads := (threads s)[t := Running AtCheck]\<rparr>
           | Running AtClear \<Rightarrow>
               s\<lparr>cancelled := False, threads := (threads s)[t := Finished Returned]\<rparr>
           | Finished r \<Rightarrow> s
           | Cancelled \<Rightarrow> s))"

text \<open>
  \<^verbatim>\<open>Future.result()\<close> blocks the caller until the future is done; meanwhile only the
  worker moves. It then returns, or raises what the future stored. A wait that never ends
  is \<open>None\<close>.
\<close>

partial_function (option) result :: "'f sink \<Rightarrow> nat \<Rightarrow> 'f playback \<Rightarrow> (outcome \<times> 'f playback) option" where
  "result snk t s =
     (case threads s ! t of
        Finished r \<Rightarrow> Some (r, s)
      | Cancelled \<Rightarrow> Some (Raised CancelledError, s)
      | Pending \<Rightarrow> result snk t (worker_step snk s)
      | Running p \<Rightarrow> result snk t (worker_step snk s))"

declare result.simps [code]

text \<open>
  \<^verbatim>\<open>_run\<close> when it is called on the calling thread (\<^verbatim>\<open>run_playback(block=True)\<close>): the
  same loop, run to its end. A loop that never ends is \<open>None\<close>.
\<close>

partial_function (option) run :: "'f sink \<Rightarrow> 'f playback \<Rightarrow> (outcome \<times> 'f playback) option" where
  "run snk s =
     (if \<not> cancelled s then
        (case step_one_frame snk s of
           (Raised e, s1) \<Rightarrow> Some (Raised e, s1)
         | (Returned, s1) \<Rightarrow> run snk s1)
      else Some (Returned, s\<lparr>cancelled := False\<rparr>))"

declare run.simps [code]

subsection \<open>The methods\<close>

text \<open>
  \<^verbatim>\<open>
    def cancel_playback(self, wait=False):
        if self._run_task is None:
            return
        if self._cancelled:
            return
        self._cancelled = True
        if wait:
            self._run_task.result()
            self._cancelled = False
  \<close>
\<close>

definition cancel_playback :: "'f sink \<Rightarrow> bool \<Rightarrow> 'f playback \<Rightarrow> (outcome \<times> 'f playback) option" where
  "cancel_playback snk wait s =
     (case run_task s of
        None \<Rightarrow> Some (Returned, s)
      | Some t \<Rightarrow>
          if cancelled s then Some (Returned, s)
          else if wait then
            (case result snk t (s\<lparr>cancelled := True\<rparr>) of
               None \<Rightarrow> None
             | Some (Raised e, s1) \<Rightarrow> Some (Raised e, s1)
             | Some (Returned, s1) \<Rightarrow> Some (Returned, s1\<lparr>cancelled := False\<rparr>))
          else Some (Returned, s\<lparr>cancelled := True\<rparr>))"

text \<open>
  \<^verbatim>\<open>
    def run_playback(self, block=False):
        if self.is_running:
            raise RuntimeError("The trajectory is already playing on a thread!")
        if block:
            self._run()
        else:
            self._run_task = self.threads.submit(self._run)
  \<close>
\<close>

definition submit :: "'f playback \<Rightarrow> nat \<times> 'f playback" where
  "submit s = (length (threads s), s\<lparr>threads := threads s @ [Pending]\<rparr>)"

definition run_playback :: "'f sink \<Rightarrow> bool \<Rightarrow> 'f playback \<Rightarrow> (outcome \<times> 'f playback) option" where
  "run_playback snk block s =
     (if is_running s then Some (Raised RuntimeError, s)
      else if block then run snk s
      else (case submit s of (t, s1) \<Rightarrow> Some (Returned, s1\<lparr>run_task := Some t\<rparr>)))"

text \<open>
  \<^verbatim>\<open>
    def play(self):
        with self._cancel_lock:
            self.cancel_playback(wait=True)
        self.run_playback()
  \<close>
\<close>

definition play :: "'f sink \<Rightarrow> 'f playback \<Rightarrow> (outcome \<times> 'f playback) option" where
  "play snk s =
     (case cancel_playback snk True s of
        None \<Rightarrow> None
      | Some (Raised e, s1) \<Rightarrow> Some (Raised e, s1)
      | Some (Returned, s1) \<Rightarrow> run_playback snk False s1)"

text \<open>
  \<^verbatim>\<open>
    def step(self):
        with self._cancel_lock:
            self.cancel_playback(wait=True)
            self._step_one_frame()
  \<close>
\<close>

definition step :: "'f sink \<Rightarrow> 'f playback \<Rightarrow> (outcome \<times> 'f playback) option" where
  "step snk s =
     (case cancel_playback snk True s of
        None \<Rightarrow> None
      | Some (Raised e, s1) \<Rightarrow> Some (Raised e, s1)
      | Some (Returned, s1) \<Rightarrow> Some (step_one_frame snk s1))"

text \<open>
  \<^verbatim>\<open>
    def pause(self):
        with self._cancel_lock:
            self.cancel_playback(wait=True)
  \<close>
\<close>

definition pause :: "'f sink \<Rightarrow> 'f playback \<Rightarrow> (outcome \<times> 'f playback) option" where
  "pause snk s = cancel_playback snk True s"

text \<open>
  \<^verbatim>\<open>
    def reset(self):
        self.frame_index = 0
  \<close>
\<close>

definition reset :: "'f playback \<Rightarrow> 'f playback" where
  "reset s = s\<lparr>frame_index := 0\<rparr>"

subsection \<open>Histories of one controlling thread and the worker\<close>

text \<open>
  What can happen to a scheduler driven by one controlling thread: a call of a method,
  or a move of the worker between two calls (\<open>Tick\<close>). A call is one step of the history;
  the worker moves inside a call only while the call is blocked in \<^verbatim>\<open>result()\<close>. That is
  every interleaving there is as long as each call finds the worker stopped or waits for
  it. Where a call runs beside a worker it did not wait for (a stop request is pending on
  a worker that still runs), the histories are only those interleavings in which the
  worker moves between the calls. After a call that raised, the caller goes on with the
  state the call left. A call that never returns ends the history: \<open>None\<close>.
\<close>

datatype call = Play | Step | Pause | RunPlayback bool | CancelPlayback bool | Reset | Tick

fun exec :: "'f sink \<Rightarrow> call \<Rightarrow> 'f playback \<Rightarrow> (outcome \<times> 'f playback) option" where
  "exec snk Play s = play snk s"
| "exec snk Step s = step snk s"
| "exec snk Pause s = pause snk s"
| "exec snk (RunPlayback block) s = run_playback snk block s"
| "exec snk (CancelPlayback wait) s = cancel_playback snk wait s"
| "exec snk Reset s = Some (Returned, reset s)"
| "exec snk Tick s = Some (Returned, worker_step snk s)"

fun run_calls :: "'f sink \<Rightarrow> call list \<Rightarrow> 'f playback \<Rightarrow> 'f playback option" where
  "run_calls snk [] s = Some s"
| "run_calls snk (c # cs) s =
     (case exec snk c s of None \<Rightarrow> None | Some (r, s1) \<Rightarrow> run_calls snk cs s1)"

text \<open>A sink that accepts every frame.\<close>

definition accepting :: "'f sink" where
  "accepting log i f = Returned"

text \<open>A sink that refuses every frame, and one that refuses the frames sent under index \<open>j\<close>.\<close>

definition refusing :: "'f sink" where
  "refusing log i f = Raised SinkError"

definition refusing_at :: "int \<Rightarrow> 'f sink" where
  "refusing_at j log i f = (if i = j then Raised SinkError else Returned)"

subsection \<open>Several callers of play\<close>

text \<open>
  Where a thread stands inside \<^verbatim>\<open>play()\<close> and the \<^verbatim>\<open>run_playback()\<close> it calls: each label
  is what it executes next.
  \<^verbatim>\<open>
    def play(self):
        with self._cancel_lock:                                 # AtLock
            self.cancel_playback(wait=True)
        self.run_playback()

    def run_playback(self, block=False):
        if self.is_running:                                     # AtTest
            raise RuntimeError("The trajectory is already playing on a thread!")
        if block:
            self._run()
        else:
            self._run_task = self.threads.submit(self._run)     # AtSubmit
  \<close>
  \<open>Left r\<close>: the call has returned or raised.
\<close>

datatype caller = AtLock | AtTest | AtSubmit | Left outcome

text \<open>
  One move of a caller. The section under \<^verbatim>\<open>_cancel_lock\<close> is one move: the lock keeps
  other callers out of their locked sections, and the histories below are those where
  nobody runs an unlocked statement meanwhile. The test of \<open>is_running\<close> and the submission
  are two moves, and hold no lock.
\<close>

fun play_move :: "'f sink \<Rightarrow> caller \<Rightarrow> 'f playback \<Rightarrow> (caller \<times> 'f playback) option" where
  "play_move snk AtLock s =
     (case cancel_playback snk True s of
        None \<Rightarrow> None
      | Some (Raised e, s1) \<Rightarrow> Some (Left (Raised e), s1)
      | Some (Returned, s1) \<Rightarrow> Some (AtTest, s1))"
| "play_move snk AtTest s =
     (if is_running s then Some (Left (Raised RuntimeError), s) else Some (AtSubmit, s))"
| "play_move snk AtSubmit s =
     (case submit s of (t, s1) \<Rightarrow> Some (Left Returned, s1\<lparr>run_task := Some t\<rparr>))"
| "play_move snk (Left r) s = Some (Left r, s)"

text \<open>
  Histories of several threads, each inside one call of \<^verbatim>\<open>play()\<close>, and the worker: who
  moves next.
\<close>

datatype actor = Caller nat | Worker

fun act :: "'f sink \<Rightarrow> actor \<Rightarrow> caller list \<times> 'f playback \<Rightarrow> (caller list \<times> 'f playback) option" where
  "act snk Worker (cs, s) = Some (cs, worker_step snk s)"
| "act snk (Caller i) (cs, s) =
     (if i < length cs then
        (case play_move snk (cs ! i) s of
           None \<Rightarrow> None
         | Some (c, s1) \<Rightarrow> Some (cs[i := c], s1))
      else Some (cs, s))"

fun interleave :: "'f sink \<Rightarrow> actor list \<Rightarrow> caller list \<times> 'f playback \<Rightarrow> (caller list \<times> 'f playback) option" where
  "interleave snk [] x = Some x"
| "interleave snk (a # as) x =
     (case act snk a x of None \<Rightarrow> None | Some y \<Rightarrow> interleave snk as y)"

text \<open>How many futures of the pool are not done.\<close>

definition unfinished :: "'f playback \<Rightarrow> nat" where
  "unfinished s = length (filter (\<lambda>f. \<not> fut_done f) (threads s))"

subsection \<open>Invariants\<close>

text \<open>
  The frame sequence is the one given at construction and, when it is not empty, the
  frame index is a position in it.
\<close>

definition index_inv :: "'f list \<Rightarrow> 'f playback \<Rightarrow> bool" where
  "index_inv fs s =
     (frames s = fs \<and> (fs \<noteq> [] \<longrightarrow> 0 \<le> frame_index s \<and> frame_index s < int (length fs)))"

text \<open>
  The pool as one controlling thread leaves it: the task handle refers to the future
  submitted last, and every older future is done.
\<close>

definition pool_ok :: "'f playback \<Rightarrow> bool" where
  "pool_ok s =
     (case run_task s of
        None \<Rightarrow> threads s = []
      | Some t \<Rightarrow> Suc t = length (threads s) \<and> (\<forall>i<t. fut_done (threads s ! i)))"


text \<open>
  What exactly one emission and one index advance make of a scheduler: the current frame
  goes to the sink under the current index, and the index moves on by one, cyclically.
\<close>

definition stepped :: "'f playback \<Rightarrow> 'f playback" where
  "stepped s =
     s\<lparr>sent := sent s @ [(frame_index s, frames s ! nat (frame_index s))],
       frame_index := (frame_index s + 1) mod int (length (frames s))\<rparr>"

text \<open>
  What the sink answers to the frame that \<^verbatim>\<open>_step_one_frame\<close> would send now, and whether
  it accepts the next \<open>k\<close> frames sent one after the other.
\<close>

definition offer :: "'f sink \<Rightarrow> 'f playback \<Rightarrow> outcome" where
  "offer snk s = snk (sent s) (frame_index s) (frames s ! nat (frame_index s))"



text \<open>
  The invariant of a scheduler over the empty sequence: nothing was sent, the index is
  0, no worker got past the send of \<^verbatim>\<open>_step_one_frame\<close>, and no future died of a division
  by zero.
\<close>

definition empty_inv :: "'f playback \<Rightarrow> bool" where
  "empty_inv s =
     (frames s = [] \<and> sent s = [] \<and> frame_index s = 0 \<and>
      (\<forall>f\<in>set (threads s). f \<noteq> Finished (Raised ZeroDivisionError) \<and> f \<noteq> Running AtAdvance))"

subsection \<open>Example states\<close>

text \<open>Three frames, and the scheduler right after \<^verbatim>\<open>run_playback()\<close> on a fresh object.\<close>

definition three_frames :: "nat list" where
  "three_frames = [10, 20, 30]"

definition started :: "nat playback" where
  "started =
     \<lparr>threads = [Pending], run_task = Some 0, cancelled = False, frame_index = 0,
      frames = three_frames, sent = []\<rparr>"


definition observing :: "nat playback" where
  "observing =
     \<lparr>threads = [Running AtCheck], run_task = Some 0, cancelled = True, frame_index = 0,
      frames = three_frames, sent = []\<rparr>"

definition paused :: "nat playback" where
  "paused =
     \<lparr>threads = [Finished Returned], run_task = Some 0, cancelled = False, frame_index = 1,
      frames = three_frames, sent = [(0, 10)]\<rparr>"

definition stopping :: "nat playback" where
  "stopping =
     \<lparr>threads = [Running AtSleep], run_task = Some 0, cancelled = True, frame_index = 1,
      frames = three_frames, sent = [(0, 10)]\<rparr>"

text \<open>
  \<open>two_submitted\<close>: two callers of \<^verbatim>\<open>play()\<close> have each submitted a worker.
\<close>

definition two_submitted :: "nat playback" where
  "two_submitted =
     \<lparr>threads = [Pending, Pending], run_task = Some 1, cancelled = False, frame_index = 0,
      frames = three_frames, sent = []\<rparr>"

definition empty_started :: "nat playback" where
  "empty_started =
     \<lparr>threads = [Pending], run_task = Some 0, cancelled = False, frame_index = 0,
      frames = [], sent = []\<rparr>"

definition empty_died :: "nat playback" where
  "empty_died =
     \<lparr>threads = [Finished (Raised IndexError)], run_task = Some 0, cancelled = False,
      frame_index = 0, frames = [], sent = []\<rparr>"

section \<open>Properties\<close>

subsection \<open>Preservation lemmas\<close>

lemma step_one_frame_fields:
  "step_one_frame snk s = (r, s1) \<Longrightarrow>
     frames s1 = frames s \<and> threads s1 = threads s \<and> run_task s1 = run_task s \<and> cancelled s1 = cancelled s"
  by (auto simp: step_one_frame_def send_frame_def py_mod_def
           split: sum.splits outcome.splits if_splits)

lemma send_current_fields:
  "send_current snk s = (r, s1) \<Longrightarrow>
     frames s1 = frames s \<and> threads s1 = threads s \<and> run_task s1 = run_task s \<and>
     cancelled s1 = cancelled s \<and> frame_index s1 = frame_index s"
  by (auto simp: send_current_def send_frame_def split: sum.splits outcome.splits)

lemma advance_index_fields:
  "advance_index s = (r, s1) \<Longrightarrow>
     frames s1 = frames s \<and> threads s1 = threads s \<and> run_task s1 = run_task s \<and>
     cancelled s1 = cancelled s \<and> sent s1 = sent s"
  by (auto simp: advance_index_def py_mod_def split: if_splits)

text \<open>\<^verbatim>\<open>_step_one_frame\<close> is its first statement, then its second.\<close>

lemma step_one_frame_split:
  "step_one_frame snk s =
     (case send_current snk s of
        (Raised e, s1) \<Rightarrow> (Raised e, s1)
      | (Returned, s1) \<Rightarrow> advance_index s1)"
  by (simp add: step_one_frame_def send_current_def advance_index_def split: sum.splits prod.splits outcome.splits)

subsection \<open>The pool's queue and the moves of the worker\<close>

lemma next_work_Some:
  "next_work fs = Some t \<Longrightarrow> t < length fs \<and> \<not> fut_done (fs ! t) \<and> (\<forall>i<t. fut_done (fs ! i))"
proof (induction fs arbitrary: t)
  case Nil
  then show ?case by simp
next
  case (Cons f fs)
  show ?case
  proof (cases "fut_done f")
    case True
    with Cons.prems obtain u where u: "next_work fs = Some u" and t: "t = Suc u" by auto
    from Cons.IH [OF u] t True show ?thesis by (auto simp: less_Suc_eq_0_disj)
  next
    case False
    with Cons.prems show ?thesis by simp
  qed
qed


lemma next_work_first:
  "t < length fs \<Longrightarrow> \<not> fut_done (fs ! t) \<Longrightarrow> \<forall>i<t. fut_done (fs ! i) \<Longrightarrow> next_work fs = Some t"
proof (induction fs arbitrary: t)
  case Nil
  then show ?case by simp
next
  case (Cons f fs)
  show ?case
  proof (cases t)
    case 0
    with Cons.prems show ?thesis by simp
  next
    case (Suc u)
    with Cons.prems have "fut_done f" by auto
    moreover from Suc Cons.prems have "next_work fs = Some u"
      by (intro Cons.IH) auto
    ultimately show ?thesis using Suc by simp
  qed
qed

lemma next_work_update:
  assumes "next_work fs = Some t" and "\<not> fut_done f"
  shows "next_work (fs[t := f]) = Some t"
proof -
  from next_work_Some [OF assms(1)] have "t < length fs" and "\<forall>i<t. fut_done (fs ! i)" by auto
  with assms(2) show ?thesis by (intro next_work_first) auto
qed

lemma pool_ok_next_work:
  assumes "pool_ok s" and "next_work (threads s) = Some u"
  shows "run_task s = Some u"
proof (cases "run_task s")
  case None
  with assms show ?thesis by (simp add: pool_ok_def)
next
  case (Some t)
  with assms(1) have len: "Suc t = length (threads s)" and d: "\<forall>i<t. fut_done (threads s ! i)"
    by (auto simp: pool_ok_def)
  from next_work_Some [OF assms(2)] have "u < length (threads s)" "\<not> fut_done (threads s ! u)" by auto
  with len d have "u = t" by (metis less_Suc_eq)
  with Some show ?thesis by simp
qed


lemma worker_step_idle: "next_work (threads s) = None \<Longrightarrow> worker_step snk s = s"
  by (simp add: worker_step_def)

lemma worker_step_pending:
  "next_work (threads s) = Some t \<Longrightarrow> threads s ! t = Pending \<Longrightarrow>
     worker_step snk s = s\<lparr>threads := (threads s)[t := Running AtCheck]\<rparr>"
  by (simp add: worker_step_def)

lemma worker_step_check:
  "next_work (threads s) = Some t \<Longrightarrow> threads s ! t = Running AtCheck \<Longrightarrow>
     worker_step snk s =
       s\<lparr>threads := (threads s)[t := (if cancelled s then Running AtClear else Running AtStep)]\<rparr>"
  by (simp add: worker_step_def)

lemma worker_step_sleep:
  "next_work (threads s) = Some t \<Longrightarrow> threads s ! t = Running AtSleep \<Longrightarrow>
     worker_step snk s = s\<lparr>threads := (threads s)[t := Running AtCheck]\<rparr>"
  by (simp add: worker_step_def)

lemma worker_step_clear:
  "next_work (threads s) = Some t \<Longrightarrow> threads s ! t = Running AtClear \<Longrightarrow>
     worker_step snk s = s\<lparr>cancelled := False, threads := (threads s)[t := Finished Returned]\<rparr>"
  by (simp add: worker_step_def)

lemma worker_step_emit:
  "next_work (threads s) = Some t \<Longrightarrow> threads s ! t = Running AtStep \<Longrightarrow>
   send_current snk s = (r, s1) \<Longrightarrow>
     worker_step snk s =
       s1\<lparr>threads := (threads s)[t := (case r of Returned \<Rightarrow> Running AtAdvance
                                          | Raised e \<Rightarrow> Finished (Raised e))]\<rparr>"
  by (auto simp: worker_step_def split: outcome.splits dest: send_current_fields)

lemma worker_step_advance:
  "next_work (threads s) = Some t \<Longrightarrow> threads s ! t = Running AtAdvance \<Longrightarrow>
   advance_index s = (r, s1) \<Longrightarrow>
     worker_step snk s =
       s1\<lparr>threads := (threads s)[t := (case r of Returned \<Rightarrow> Running AtSleep
                                          | Raised e \<Rightarrow> Finished (Raised e))]\<rparr>"
  by (auto simp: worker_step_def split: outcome.splits dest: advance_index_fields)

lemma worker_step_shape [case_names idle move clear emit advance]:
  obtains "worker_step snk s = s"
  | t p where "next_work (threads s) = Some t" and "p \<noteq> AtAdvance"
      and "worker_step snk s = s\<lparr>threads := (threads s)[t := Running p]\<rparr>"
  | t where "next_work (threads s) = Some t"
      and "worker_step snk s = s\<lparr>cancelled := False, threads := (threads s)[t := Finished Returned]\<rparr>"
  | t r s1 where "next_work (threads s) = Some t" and "send_current snk s = (r, s1)"
      and "threads s ! t = Running AtStep"
      and "worker_step snk s =
             s1\<lparr>threads := (threads s)[t := (case r of Returned \<Rightarrow> Running AtAdvance
                                                | Raised e \<Rightarrow> Finished (Raised e))]\<rparr>"
  | t r s1 where "next_work (threads s) = Some t" and "advance_index s = (r, s1)"
      and "threads s ! t = Running AtAdvance"
      and "worker_step snk s =
             s1\<lparr>threads := (threads s)[t := (case r of Returned \<Rightarrow> Running AtSleep
                                                | Raised e \<Rightarrow> Finished (Raised e))]\<rparr>"
proof (cases "next_work (threads s)")
  case None
  from that(1) [OF worker_step_idle [OF None]] show ?thesis .
next
  case (Some t)
  show ?thesis
  proof (cases "threads s ! t")
    case Pending
    from that(2) [OF Some _ worker_step_pending [OF Some Pending]] show ?thesis by simp
  next
    case (Running p)
    show ?thesis
    proof (cases p)
      case AtCheck
      with Running have pc: "threads s ! t = Running AtCheck" by simp
      have "worker_step snk s =
              s\<lparr>threads := (threads s)[t := Running (if cancelled s then AtClear else AtStep)]\<rparr>"
        using worker_step_check [OF Some pc, of snk] by simp
      from that(2) [OF Some _ this] show ?thesis by simp
    next
      case AtStep
      with Running have pc: "threads s ! t = Running AtStep" by simp
      obtain r s1 where st: "send_current snk s = (r, s1)" by (cases "send_current snk s")
      from that(4) [OF Some st pc worker_step_emit [OF Some pc st]] show ?thesis .
    next
      case AtAdvance
      with Running have pc: "threads s ! t = Running AtAdvance" by simp
      obtain r s1 where st: "advance_index s = (r, s1)" by (cases "advance_index s")
      from that(5) [OF Some st pc worker_step_advance [OF Some pc st]] show ?thesis .
    next
      case AtSleep
      with Running have pc: "threads s ! t = Running AtSleep" by simp
      from that(2) [OF Some _ worker_step_sleep [OF Some pc]] show ?thesis by simp
    next
      case AtClear
      with Running have pc: "threads s ! t = Running AtClear" by simp
      from that(3) [OF Some worker_step_clear [OF Some pc]] show ?thesis .
    qed
  next
    case (Finished r)
    with Some have "worker_step snk s = s" by (simp add: worker_step_def)
    then show ?thesis by (rule that(1))
  next
    case Cancelled
    with Some have "worker_step snk s = s" by (simp add: worker_step_def)
    then show ?thesis by (rule that(1))
  qed
qed

subsection \<open>Properties kept by waits, loops, calls and histories\<close>

lemma result_preserves:
  assumes W: "\<And>s0. I s0 \<Longrightarrow> I (worker_step snk s0)"
    and res: "result snk t s = Some (r, s')" and "I s"
  shows "I s'"
proof -
  have "(\<forall>s0. I s0 \<longrightarrow> I (worker_step snk s0)) \<longrightarrow> I s \<longrightarrow> I (snd (r, s'))"
  proof (rule result.raw_induct
      [where P = "\<lambda>k u a y. (\<forall>s0. I s0 \<longrightarrow> I (worker_step k s0)) \<longrightarrow> I a \<longrightarrow> I (snd y)", OF _ res])
    fix res k u a y
    assume IH: "\<And>k u a y. res k u a = Some y \<Longrightarrow>
                 (\<forall>s0. I s0 \<longrightarrow> I (worker_step k s0)) \<longrightarrow> I a \<longrightarrow> I (snd y)"
      and eq: "(case threads a ! u of
                  Pending \<Rightarrow> res k u (worker_step k a)
                | Running p \<Rightarrow> res k u (worker_step k a)
                | Finished r \<Rightarrow> Some (r, a)
                | Cancelled \<Rightarrow> Some (Raised CancelledError, a)) = Some y"
    show "(\<forall>s0. I s0 \<longrightarrow> I (worker_step k s0)) \<longrightarrow> I a \<longrightarrow> I (snd y)"
    proof (cases "threads a ! u")
      case Pending
      with eq have "res k u (worker_step k a) = Some y" by simp
      from IH [OF this] show ?thesis by blast
    next
      case (Running p)
      with eq have "res k u (worker_step k a) = Some y" by simp
      from IH [OF this] show ?thesis by blast
    next
      case (Finished r)
      with eq show ?thesis by auto
    next
      case Cancelled
      with eq show ?thesis by auto
    qed
  qed
  with W \<open>I s\<close> show ?thesis by simp
qed

lemma run_preserves:
  assumes S: "\<And>s0 r s1. I s0 \<Longrightarrow> step_one_frame snk s0 = (r, s1) \<Longrightarrow> I s1"
    and C: "\<And>s0. I s0 \<Longrightarrow> I (s0\<lparr>cancelled := False\<rparr>)"
    and res: "run snk s = Some (r, s')" and "I s"
  shows "I s'"
proof -
  let ?A = "\<lambda>k. (\<forall>s0 r s1. I s0 \<longrightarrow> step_one_frame k s0 = (r, s1) \<longrightarrow> I s1)"
  have "?A snk \<longrightarrow> I s \<longrightarrow> I (snd (r, s'))"
  proof (rule run.raw_induct [where P = "\<lambda>k a y. ?A k \<longrightarrow> I a \<longrightarrow> I (snd y)", OF _ res])
    fix rn k a y
    assume IH: "\<And>k a y. rn k a = Some y \<Longrightarrow> ?A k \<longrightarrow> I a \<longrightarrow> I (snd y)"
      and eq: "(if \<not> cancelled a
                then case step_one_frame k a of
                       (Returned, s1) \<Rightarrow> rn k s1
                     | (Raised e, s1) \<Rightarrow> Some (Raised e, s1)
                else Some (Returned, a\<lparr>cancelled := False\<rparr>)) = Some y"
    show "?A k \<longrightarrow> I a \<longrightarrow> I (snd y)"
    proof (cases "cancelled a")
      case True
      with eq C show ?thesis by auto
    next
      case False
      obtain r1 a1 where st: "step_one_frame k a = (r1, a1)" by (cases "step_one_frame k a")
      show ?thesis
      proof (cases r1)
        case Returned
        with eq False st have "rn k a1 = Some y" by simp
        from IH [OF this] st show ?thesis by blast
      next
        case (Raised e)
        with eq False st have "y = (Raised e, a1)" by simp
        with st show ?thesis by auto
      qed
    qed
  qed
  with S \<open>I s\<close> show ?thesis by auto
qed

lemma result_stored:
  assumes res: "result snk t s = Some (r, s')"
  shows "threads s' ! t = Finished r \<or> (threads s' ! t = Cancelled \<and> r = Raised CancelledError)"
proof -
  let ?P = "\<lambda>(k::'a sink) (u::nat) (a::'a playback) y. threads (snd y) ! u = Finished (fst y) \<or>
      (threads (snd y) ! u = Cancelled \<and> fst y = Raised CancelledError)"
  have "?P snk t s (r, s')"
  proof (rule result.raw_induct [where P = ?P, OF _ res])
    fix res k u a y
    assume IH: "\<And>k u a y. res k u a = Some y \<Longrightarrow> ?P k u a y"
      and eq: "(case threads a ! u of
                  Pending \<Rightarrow> res k u (worker_step k a)
                | Running p \<Rightarrow> res k u (worker_step k a)
                | Finished r \<Rightarrow> Some (r, a)
                | Cancelled \<Rightarrow> Some (Raised CancelledError, a)) = Some y"
    show "?P k u a y"
    proof (cases "threads a ! u")
      case Pending
      with eq have "res k u (worker_step k a) = Some y" by simp
      from IH [OF this] show ?thesis .
    next
      case (Running p)
      with eq have "res k u (worker_step k a) = Some y" by simp
      from IH [OF this] show ?thesis .
    next
      case (Finished r)
      with eq show ?thesis by auto
    next
      case Cancelled
      with eq show ?thesis by auto
    qed
  qed
  then show ?thesis by simp
qed


lemma cancel_playback_preserves:
  assumes W: "\<And>s0. I s0 \<Longrightarrow> I (worker_step snk s0)"
    and C: "\<And>s0 b. I s0 \<Longrightarrow> I (s0\<lparr>cancelled := b\<rparr>)"
    and res: "cancel_playback snk wait s = Some (r, s')" and "I s"
  shows "I s'"
proof (cases "run_task s")
  case None
  with res \<open>I s\<close> show ?thesis by (simp add: cancel_playback_def)
next
  case (Some t)
  show ?thesis
  proof (cases "cancelled s \<or> \<not> wait")
    case True
    with res Some C [OF \<open>I s\<close>] \<open>I s\<close> show ?thesis
      by (auto simp: cancel_playback_def split: if_splits)
  next
    case False
    with res Some obtain r1 s1 where r1: "result snk t (s\<lparr>cancelled := True\<rparr>) = Some (r1, s1)"
      and s': "s' = s1 \<or> s' = s1\<lparr>cancelled := False\<rparr>"
      by (auto simp: cancel_playback_def split: option.splits outcome.splits)
    have "I s1" using W r1 C [OF \<open>I s\<close>] by (rule result_preserves)
    with s' C show ?thesis by auto
  qed
qed

lemma run_playback_preserves:
  assumes S: "\<And>s0 r s1. I s0 \<Longrightarrow> step_one_frame snk s0 = (r, s1) \<Longrightarrow> I s1"
    and C: "\<And>s0 b. I s0 \<Longrightarrow> I (s0\<lparr>cancelled := b\<rparr>)"
    and Sub: "\<And>s0. I s0 \<Longrightarrow> \<not> is_running s0 \<Longrightarrow>
                I (s0\<lparr>threads := threads s0 @ [Pending], run_task := Some (length (threads s0))\<rparr>)"
    and res: "run_playback snk block s = Some (r, s')" and "I s"
  shows "I s'"
proof (cases "is_running s")
  case True
  with res \<open>I s\<close> show ?thesis by (simp add: run_playback_def)
next
  case False
  show ?thesis
  proof (cases block)
    case True
    with res False have "run snk s = Some (r, s')" by (simp add: run_playback_def)
    with S C show ?thesis using \<open>I s\<close> by (rule run_preserves)
  next
    case nb: False
    with res False Sub [OF \<open>I s\<close> False] show ?thesis
      by (auto simp: run_playback_def submit_def)
  qed
qed

lemma exec_preserves:
  assumes W: "\<And>s0. I s0 \<Longrightarrow> I (worker_step snk s0)"
    and S: "\<And>s0 r s1. I s0 \<Longrightarrow> step_one_frame snk s0 = (r, s1) \<Longrightarrow> I s1"
    and C: "\<And>s0 b. I s0 \<Longrightarrow> I (s0\<lparr>cancelled := b\<rparr>)"
    and R: "\<And>s0. I s0 \<Longrightarrow> I (s0\<lparr>frame_index := 0\<rparr>)"
    and Sub: "\<And>s0. I s0 \<Longrightarrow> \<not> is_running s0 \<Longrightarrow>
                I (s0\<lparr>threads := threads s0 @ [Pending], run_task := Some (length (threads s0))\<rparr>)"
    and res: "exec snk c s = Some (r, s')" and "I s"
  shows "I s'"
proof (cases c)
  case Play
  with res obtain r1 s1 where c1: "cancel_playback snk True s = Some (r1, s1)"
    and rest: "(r1 = Returned \<and> run_playback snk False s1 = Some (r, s')) \<or> s' = s1"
    by (auto simp: play_def split: option.splits outcome.splits)
  have I1: "I s1" using W C c1 \<open>I s\<close> by (rule cancel_playback_preserves)
  from rest show ?thesis
  proof
    assume "r1 = Returned \<and> run_playback snk False s1 = Some (r, s')"
    then have "run_playback snk False s1 = Some (r, s')" ..
    with S C Sub show ?thesis using I1 by (rule run_playback_preserves)
  next
    assume "s' = s1"
    with I1 show ?thesis by simp
  qed
next
  case Step
  with res obtain r1 s1 where c1: "cancel_playback snk True s = Some (r1, s1)"
    and rest: "step_one_frame snk s1 = (r, s') \<or> s' = s1"
    by (auto simp: step_def split: option.splits outcome.splits)
  have "I s1" using W C c1 \<open>I s\<close> by (rule cancel_playback_preserves)
  with rest S show ?thesis by blast
next
  case Pause
  with res have "cancel_playback snk True s = Some (r, s')" by (simp add: pause_def)
  with W C show ?thesis using \<open>I s\<close> by (rule cancel_playback_preserves)
next
  case (RunPlayback block)
  with res have "run_playback snk block s = Some (r, s')" by simp
  with S C Sub show ?thesis using \<open>I s\<close> by (rule run_playback_preserves)
next
  case (CancelPlayback wait)
  with res have "cancel_playback snk wait s = Some (r, s')" by simp
  with W C show ?thesis using \<open>I s\<close> by (rule cancel_playback_preserves)
next
  case Reset
  with res R [OF \<open>I s\<close>] show ?thesis by (auto simp: reset_def)
next
  case Tick
  with res W [OF \<open>I s\<close>] show ?thesis by auto
qed

lemma run_calls_preserves:
  assumes W: "\<And>s0. I s0 \<Longrightarrow> I (worker_step snk s0)"
    and S: "\<And>s0 r s1. I s0 \<Longrightarrow> step_one_frame snk s0 = (r, s1) \<Longrightarrow> I s1"
    and C: "\<And>s0 b. I s0 \<Longrightarrow> I (s0\<lparr>cancelled := b\<rparr>)"
    and R: "\<And>s0. I s0 \<Longrightarrow> I (s0\<lparr>frame_index := 0\<rparr>)"
    and Sub: "\<And>s0. I s0 \<Longrightarrow> \<not> is_running s0 \<Longrightarrow>
                I (s0\<lparr>threads := threads s0 @ [Pending], run_task := Some (length (threads s0))\<rparr>)"
  shows "run_calls snk cs s = Some s' \<Longrightarrow> I s \<Longrightarrow> I s'"
proof (induction cs arbitrary: s)
  case Nil
  then show ?case by simp
next
  case (Cons c cs)
  from Cons.prems(1) obtain r s1 where e: "exec snk c s = Some (r, s1)"
    and rest: "run_calls snk cs s1 = Some s'"
    by (auto split: option.splits)
  have "I s1" using W S C R Sub e Cons.prems(2) by (rule exec_preserves)
  with rest show ?case by (rule Cons.IH)
qed

subsection \<open>The index invariant\<close>

lemma step_one_frame_index_inv:
  "index_inv fs s \<Longrightarrow> step_one_frame snk s = (r, s1) \<Longrightarrow> index_inv fs s1"
  by (auto simp: step_one_frame_def send_frame_def py_mod_def index_inv_def
           split: sum.splits outcome.splits if_splits)


lemma send_current_index_inv:
  "index_inv fs s \<Longrightarrow> send_current snk s = (r, s1) \<Longrightarrow> index_inv fs s1"
  by (drule send_current_fields) (simp add: index_inv_def)

lemma advance_index_index_inv:
  "index_inv fs s \<Longrightarrow> advance_index s = (r, s1) \<Longrightarrow> index_inv fs s1"
  by (auto simp: advance_index_def py_mod_def index_inv_def split: if_splits)

lemma index_inv_threads [simp]: "index_inv fs (s\<lparr>threads := ts\<rparr>) = index_inv fs s"
  by (simp add: index_inv_def)

lemma index_inv_flag [simp]: "index_inv fs (s\<lparr>cancelled := b\<rparr>) = index_inv fs s"
  by (simp add: index_inv_def)

lemma index_inv_handle [simp]: "index_inv fs (s\<lparr>run_task := h\<rparr>) = index_inv fs s"
  by (simp add: index_inv_def)


lemma worker_step_index_inv:
  assumes "index_inv fs s"
  shows "index_inv fs (worker_step snk s)"
proof (cases snk s rule: worker_step_shape)
  case idle
  with assms show ?thesis by simp
next
  case (move t p)
  with assms show ?thesis by simp
next
  case (clear t)
  with assms show ?thesis by simp
next
  case (emit t r s1)
  from assms emit(2) have "index_inv fs s1" by (rule send_current_index_inv)
  with emit(4) show ?thesis by simp
next
  case (advance t r s1)
  from assms advance(2) have "index_inv fs s1" by (rule advance_index_index_inv)
  with advance(4) show ?thesis by simp
qed

lemma index_inv_cancelled: "index_inv fs s \<Longrightarrow> index_inv fs (s\<lparr>cancelled := b\<rparr>)"
  by (simp add: index_inv_def)

lemma index_inv_reset: "index_inv fs s \<Longrightarrow> index_inv fs (s\<lparr>frame_index := 0\<rparr>)"
  by (auto simp: index_inv_def)

lemma index_inv_submit:
  "index_inv fs s \<Longrightarrow> index_inv fs (s\<lparr>threads := ts, run_task := h\<rparr>)"
  by simp

lemma exec_index_inv:
  assumes "exec snk c s = Some (r, s')" and "index_inv fs s"
  shows "index_inv fs s'"
  using worker_step_index_inv step_one_frame_index_inv index_inv_cancelled index_inv_reset
    index_inv_submit assms
  by (rule exec_preserves [where I = "index_inv fs"])

lemma run_calls_index_inv:
  assumes "run_calls snk cs s = Some s'" and "index_inv fs s"
  shows "index_inv fs s'"
  using worker_step_index_inv step_one_frame_index_inv index_inv_cancelled index_inv_reset
    index_inv_submit assms
  by (rule run_calls_preserves [where I = "index_inv fs"])


subsection \<open>The pool invariant\<close>

lemma pool_ok_update:
  assumes "pool_ok s" and "next_work (threads s) = Some t"
    and "run_task s' = run_task s" and "threads s' = (threads s)[t := f]"
  shows "pool_ok s'"
proof -
  from pool_ok_next_work [OF assms(1,2)] have h: "run_task s = Some t" .
  with assms(1) have "Suc t = length (threads s)" "\<forall>i<t. fut_done (threads s ! i)"
    by (auto simp: pool_ok_def)
  with h assms(3,4) show ?thesis by (auto simp: pool_ok_def)
qed

lemma worker_step_pool_ok:
  assumes "pool_ok s"
  shows "pool_ok (worker_step snk s)"
proof (cases snk s rule: worker_step_shape)
  case idle
  with assms show ?thesis by simp
next
  case (move t p)
  with assms show ?thesis by (intro pool_ok_update [OF assms move(1)]) simp_all
next
  case (clear t)
  with assms show ?thesis by (intro pool_ok_update [OF assms clear(1)]) simp_all
next
  case (emit t r s1)
  from send_current_fields [OF emit(2)] emit(4) show ?thesis
    by (intro pool_ok_update [OF assms emit(1)]) simp_all
next
  case (advance t r s1)
  from advance_index_fields [OF advance(2)] advance(4) show ?thesis
    by (intro pool_ok_update [OF assms advance(1)]) simp_all
qed

lemma step_one_frame_pool_ok:
  "pool_ok s \<Longrightarrow> step_one_frame snk s = (r, s1) \<Longrightarrow> pool_ok s1"
  by (drule step_one_frame_fields) (simp add: pool_ok_def split: option.splits)

lemma pool_ok_flag: "pool_ok s \<Longrightarrow> pool_ok (s\<lparr>cancelled := b\<rparr>)"
  by (simp add: pool_ok_def split: option.splits)

lemma pool_ok_reset: "pool_ok s \<Longrightarrow> pool_ok (s\<lparr>frame_index := 0\<rparr>)"
  by (simp add: pool_ok_def split: option.splits)

lemma pool_ok_submit:
  assumes "pool_ok s" and "\<not> is_running s"
  shows "pool_ok (s\<lparr>threads := threads s @ [Pending], run_task := Some (length (threads s))\<rparr>)"
proof (cases "run_task s")
  case None
  with assms show ?thesis by (simp add: pool_ok_def)
next
  case (Some t)
  with assms(1) have len: "Suc t = length (threads s)" and d: "\<forall>i<t. fut_done (threads s ! i)"
    by (auto simp: pool_ok_def)
  from assms(2) Some have "fut_done (threads s ! t)"
    by (cases "threads s ! t") (auto simp: is_running_def)
  with d len have "\<forall>i<length (threads s). fut_done (threads s ! i)"
    by (metis less_Suc_eq)
  then show ?thesis by (simp add: pool_ok_def nth_append)
qed

lemma exec_pool_ok:
  assumes "exec snk c s = Some (r, s')" and "pool_ok s"
  shows "pool_ok s'"
  using worker_step_pool_ok step_one_frame_pool_ok pool_ok_flag pool_ok_reset pool_ok_submit assms
  by (rule exec_preserves [where I = pool_ok])

lemma run_calls_pool_ok:
  assumes "run_calls snk cs s = Some s'" and "pool_ok s"
  shows "pool_ok s'"
  using worker_step_pool_ok step_one_frame_pool_ok pool_ok_flag pool_ok_reset pool_ok_submit assms
  by (rule run_calls_preserves [where I = pool_ok])

lemma pool_ok_init: "pool_ok (init fs)"
  by (simp add: pool_ok_def init_def)

lemma pool_ok_handle:
  assumes "pool_ok s" and "run_task s = Some t" and "\<not> fut_done (threads s ! t)"
  shows "next_work (threads s) = Some t"
  using assms by (intro next_work_first) (auto simp: pool_ok_def)

subsection \<open>One worker at a time, for one controlling thread\<close>

text \<open>
  In every history of one controlling thread at most one future of the pool is not done,
  and a \<^verbatim>\<open>play()\<close> that returns normally has submitted its worker only after every earlier
  future was done.
\<close>

lemma pool_ok_one_unfinished:
  assumes "pool_ok s"
  shows "unfinished s \<le> 1"
proof (cases "run_task s")
  case None
  with assms show ?thesis by (simp add: pool_ok_def unfinished_def)
next
  case (Some t)
  with assms have len: "Suc t = length (threads s)" and d: "\<forall>i<t. fut_done (threads s ! i)"
    by (auto simp: pool_ok_def)
  from len have split: "threads s = take t (threads s) @ [threads s ! t]"
    by (metis lessI take_Suc_conv_app_nth take_all order_refl)
  have "filter (\<lambda>f. \<not> fut_done f) (take t (threads s)) = []"
    using d len by (auto simp: filter_empty_conv in_set_conv_nth)
  with split have "filter (\<lambda>f. \<not> fut_done f) (threads s) = filter (\<lambda>f. \<not> fut_done f) [threads s ! t]"
    by (metis filter_append self_append_conv2)
  then show ?thesis by (simp add: unfinished_def)
qed

lemma one_controller_one_worker:
  assumes "run_calls snk cs (init fs) = Some s"
  shows "unfinished s \<le> 1"
  using run_calls_pool_ok [OF assms pool_ok_init] by (rule pool_ok_one_unfinished)

lemma play_spawns_after_stop:
  assumes "pool_ok s" and "play snk s = Some (Returned, s')"
  shows "\<exists>n. run_task s' = Some n \<and> Suc n = length (threads s') \<and> threads s' ! n = Pending \<and>
             (\<forall>i<n. fut_done (threads s' ! i))"
proof -
  from assms(2) obtain s1 where c: "cancel_playback snk True s = Some (Returned, s1)"
    and r: "run_playback snk False s1 = Some (Returned, s')"
    by (auto simp: play_def split: option.splits outcome.splits)
  from r have s': "s' = s1\<lparr>threads := threads s1 @ [Pending], run_task := Some (length (threads s1))\<rparr>"
    by (auto simp: run_playback_def submit_def split: if_splits)
  have "exec snk Play s = Some (Returned, s')" using assms(2) by simp
  then have "pool_ok s'" using assms(1) by (rule exec_pool_ok)
  with s' show ?thesis by (auto simp: pool_ok_def)
qed

text \<open>The moves of one caller, one after the other, are \<^verbatim>\<open>play()\<close>.\<close>

lemma play_in_moves:
  "play snk s =
     (case play_move snk AtLock s of
        None \<Rightarrow> None
      | Some (c1, s1) \<Rightarrow>
          (case play_move snk c1 s1 of
             None \<Rightarrow> None
           | Some (c2, s2) \<Rightarrow>
               (case play_move snk c2 s2 of
                  Some (Left r, s3) \<Rightarrow> Some (r, s3)
                | _ \<Rightarrow> None)))"
proof (cases "cancel_playback snk True s")
  case None
  then show ?thesis by (simp add: play_def)
next
  case (Some y)
  obtain r1 s1 where y: "y = (r1, s1)" by (cases y)
  show ?thesis
  proof (cases r1)
    case Returned
    with Some y show ?thesis
      by (cases "is_running s1") (simp_all add: play_def run_playback_def submit_def)
  next
    case (Raised e)
    with Some y show ?thesis by (simp add: play_def)
  qed
qed

subsection \<open>Waiting for a worker that was told to stop\<close>

lemma result_finished: "threads s ! t = Finished r \<Longrightarrow> result snk t s = Some (r, s)"
  by (subst result.simps) simp

lemma result_waits:
  "\<not> fut_done (threads s ! t) \<Longrightarrow> result snk t s = result snk t (worker_step snk s)"
  by (subst result.simps) (cases "threads s ! t"; simp)

lemma result_at_clear:
  assumes nw: "next_work (threads s) = Some t" and pc: "threads s ! t = Running AtClear"
  shows "result snk t s =
           Some (Returned, s\<lparr>cancelled := False, threads := (threads s)[t := Finished Returned]\<rparr>)"
proof -
  from next_work_Some [OF nw] have lt: "t < length (threads s)" by simp
  have "result snk t s = result snk t (worker_step snk s)"
    using pc by (simp add: result_waits)
  also have "worker_step snk s =
      s\<lparr>cancelled := False, threads := (threads s)[t := Finished Returned]\<rparr>"
    using nw pc by (rule worker_step_clear)
  also have "result snk t \<dots> = Some (Returned, \<dots>)"
    using lt by (intro result_finished) simp
  finally show ?thesis .
qed

lemma result_at_check:
  assumes nw: "next_work (threads s) = Some t" and pc: "threads s ! t = Running AtCheck"
    and fl: "cancelled s"
  shows "result snk t s =
           Some (Returned, s\<lparr>cancelled := False, threads := (threads s)[t := Finished Returned]\<rparr>)"
proof -
  from next_work_Some [OF nw] have lt: "t < length (threads s)" by simp
  let ?s2 = "s\<lparr>threads := (threads s)[t := Running AtClear]\<rparr>"
  have "result snk t s = result snk t (worker_step snk s)"
    using pc by (simp add: result_waits)
  also have "worker_step snk s = ?s2"
    using worker_step_check [OF nw pc] fl by simp
  also have "result snk t ?s2 =
      Some (Returned, ?s2\<lparr>cancelled := False, threads := (threads ?s2)[t := Finished Returned]\<rparr>)"
    using nw lt by (intro result_at_clear) (simp_all add: next_work_update)
  finally show ?thesis by simp
qed

lemma result_at_sleep:
  assumes nw: "next_work (threads s) = Some t" and pc: "threads s ! t = Running AtSleep"
    and fl: "cancelled s"
  shows "result snk t s =
           Some (Returned, s\<lparr>cancelled := False, threads := (threads s)[t := Finished Returned]\<rparr>)"
proof -
  from next_work_Some [OF nw] have lt: "t < length (threads s)" by simp
  let ?s2 = "s\<lparr>threads := (threads s)[t := Running AtCheck]\<rparr>"
  have "result snk t s = result snk t (worker_step snk s)"
    using pc by (simp add: result_waits)
  also have "worker_step snk s = ?s2"
    using nw pc by (rule worker_step_sleep)
  also have "result snk t ?s2 =
      Some (Returned, ?s2\<lparr>cancelled := False, threads := (threads ?s2)[t := Finished Returned]\<rparr>)"
    using nw lt fl by (intro result_at_check) (simp_all add: next_work_update)
  finally show ?thesis by simp
qed

lemma result_pending:
  assumes nw: "next_work (threads s) = Some t" and pc: "threads s ! t = Pending"
    and fl: "cancelled s"
  shows "result snk t s =
           Some (Returned, s\<lparr>cancelled := False, threads := (threads s)[t := Finished Returned]\<rparr>)"
proof -
  from next_work_Some [OF nw] have lt: "t < length (threads s)" by simp
  let ?s2 = "s\<lparr>threads := (threads s)[t := Running AtCheck]\<rparr>"
  have "result snk t s = result snk t (worker_step snk s)"
    using pc by (simp add: result_waits)
  also have "worker_step snk s = ?s2"
    using nw pc by (rule worker_step_pending)
  also have "result snk t ?s2 =
      Some (Returned, ?s2\<lparr>cancelled := False, threads := (threads ?s2)[t := Finished Returned]\<rparr>)"
    using nw lt fl by (intro result_at_check) (simp_all add: next_work_update)
  finally show ?thesis by simp
qed

lemma result_at_advance:
  assumes nw: "next_work (threads s) = Some t" and pc: "threads s ! t = Running AtAdvance"
    and fl: "cancelled s" and st: "advance_index s = (r, s1)"
  shows "result snk t s =
           Some (case r of
                   Returned \<Rightarrow>
                     (Returned, s1\<lparr>cancelled := False, threads := (threads s)[t := Finished Returned]\<rparr>)
                 | Raised e \<Rightarrow>
                     (Raised e, s1\<lparr>threads := (threads s)[t := Finished (Raised e)]\<rparr>))"
proof -
  from next_work_Some [OF nw] have lt: "t < length (threads s)" by simp
  from advance_index_fields [OF st] have same: "threads s1 = threads s" "cancelled s1 = cancelled s"
    by simp_all
  have w: "result snk t s = result snk t (worker_step snk s)"
    using pc by (simp add: result_waits)
  show ?thesis
  proof (cases r)
    case Returned
    let ?s2 = "s1\<lparr>threads := (threads s)[t := Running AtSleep]\<rparr>"
    have "worker_step snk s = ?s2"
      using worker_step_advance [OF nw pc st] Returned by simp
    moreover have "result snk t ?s2 =
      Some (Returned, ?s2\<lparr>cancelled := False, threads := (threads ?s2)[t := Finished Returned]\<rparr>)"
      using nw lt fl same by (intro result_at_sleep) (simp_all add: next_work_update)
    ultimately show ?thesis using w Returned by simp
  next
    case (Raised e)
    let ?s2 = "s1\<lparr>threads := (threads s)[t := Finished (Raised e)]\<rparr>"
    have "worker_step snk s = ?s2"
      using worker_step_advance [OF nw pc st] Raised by simp
    moreover have "result snk t ?s2 = Some (Raised e, ?s2)"
      using lt by (intro result_finished) simp
    ultimately show ?thesis using w Raised by simp
  qed
qed

lemma advance_index_threads:
  "advance_index (s\<lparr>threads := ts\<rparr>) =
     (case advance_index s of (r, s1) \<Rightarrow> (r, s1\<lparr>threads := ts\<rparr>))"
  by (simp add: advance_index_def split: sum.splits)

lemma result_at_step:
  assumes nw: "next_work (threads s) = Some t" and pc: "threads s ! t = Running AtStep"
    and fl: "cancelled s" and st: "send_current snk s = (r, s1)"
    and ad: "advance_index s1 = (r2, s2)"
  shows "result snk t s =
           Some (case r of
                   Returned \<Rightarrow>
                     (case r2 of
                        Returned \<Rightarrow>
                          (Returned,
                           s2\<lparr>cancelled := False, threads := (threads s)[t := Finished Returned]\<rparr>)
                      | Raised e \<Rightarrow>
                          (Raised e, s2\<lparr>threads := (threads s)[t := Finished (Raised e)]\<rparr>))
                 | Raised e \<Rightarrow>
                     (Raised e, s1\<lparr>threads := (threads s)[t := Finished (Raised e)]\<rparr>))"
proof -
  from next_work_Some [OF nw] have lt: "t < length (threads s)" by simp
  from send_current_fields [OF st] have same: "threads s1 = threads s" "cancelled s1 = cancelled s"
    by simp_all
  have w: "result snk t s = result snk t (worker_step snk s)"
    using pc by (simp add: result_waits)
  show ?thesis
  proof (cases r)
    case Returned
    let ?s2 = "s1\<lparr>threads := (threads s)[t := Running AtAdvance]\<rparr>"
    have ws: "worker_step snk s = ?s2"
      using worker_step_emit [OF nw pc st] Returned by simp
    have ad2: "advance_index ?s2 = (r2, s2\<lparr>threads := (threads s)[t := Running AtAdvance]\<rparr>)"
      using ad by (simp add: advance_index_threads)
    have "result snk t ?s2 =
      Some (case r2 of
              Returned \<Rightarrow>
                (Returned, (s2\<lparr>threads := (threads s)[t := Running AtAdvance]\<rparr>)
                   \<lparr>cancelled := False, threads := (threads ?s2)[t := Finished Returned]\<rparr>)
            | Raised e \<Rightarrow>
                (Raised e, (s2\<lparr>threads := (threads s)[t := Running AtAdvance]\<rparr>)
                   \<lparr>threads := (threads ?s2)[t := Finished (Raised e)]\<rparr>))"
      using nw lt fl same by (intro result_at_advance [OF _ _ _ ad2]) (simp_all add: next_work_update)
    with w ws Returned show ?thesis by (cases r2) simp_all
  next
    case (Raised e)
    let ?s2 = "s1\<lparr>threads := (threads s)[t := Finished (Raised e)]\<rparr>"
    have "worker_step snk s = ?s2"
      using worker_step_emit [OF nw pc st] Raised by simp
    moreover have "result snk t ?s2 = Some (Raised e, ?s2)"
      using lt by (intro result_finished) simp
    ultimately show ?thesis using w Raised by simp
  qed
qed

text \<open>A wait on the oldest unfinished task ends once the flag is set.\<close>

lemma result_returns:
  assumes nw: "next_work (threads s) = Some t" and fl: "cancelled s"
  shows "\<exists>r s'. result snk t s = Some (r, s')"
proof (cases "threads s ! t")
  case Pending
  with result_pending [OF nw _ fl] show ?thesis by blast
next
  case (Running p)
  show ?thesis
  proof (cases p)
    case AtCheck
    with Running result_at_check [OF nw _ fl] show ?thesis by blast
  next
    case AtStep
    obtain r s1 where st: "send_current snk s = (r, s1)" by (cases "send_current snk s")
    obtain r2 s2 where ad: "advance_index s1 = (r2, s2)" by (cases "advance_index s1")
    from Running AtStep result_at_step [OF nw _ fl st ad] show ?thesis
      by (cases r; cases r2) auto
  next
    case AtAdvance
    obtain r s1 where st: "advance_index s = (r, s1)" by (cases "advance_index s")
    from Running AtAdvance result_at_advance [OF nw _ fl st] show ?thesis
      by (cases r) auto
  next
    case AtSleep
    with Running result_at_sleep [OF nw _ fl] show ?thesis by blast
  next
    case AtClear
    with Running result_at_clear [OF nw] show ?thesis by blast
  qed
next
  case (Finished r)
  then show ?thesis by (simp add: result_finished)
next
  case Cancelled
  then show ?thesis by (subst result.simps) simp
qed



lemma cancel_playback_returns:
  assumes "pool_ok s"
  shows "\<exists>r s'. cancel_playback snk wait s = Some (r, s')"
proof (cases "run_task s")
  case None
  then show ?thesis by (simp add: cancel_playback_def)
next
  case (Some t)
  show ?thesis
  proof (cases "cancelled s \<or> \<not> wait")
    case True
    with Some show ?thesis by (auto simp: cancel_playback_def)
  next
    case False
    let ?s1 = "s\<lparr>cancelled := True\<rparr>"
    have "\<exists>r s'. result snk t ?s1 = Some (r, s')"
    proof (cases "fut_done (threads s ! t)")
      case True
      then show ?thesis
        by (cases "threads s ! t") (auto simp: result_finished result.simps [of snk t ?s1])
    next
      case nd: False
      with assms Some have "next_work (threads ?s1) = Some t"
        using pool_ok_handle by fastforce
      then show ?thesis by (rule result_returns) simp
    qed
    then obtain r1 s1 where "result snk t ?s1 = Some (r1, s1)" by blast
    with Some False show ?thesis by (cases r1) (auto simp: cancel_playback_def)
  qed
qed

subsection \<open>What a stop request leaves\<close>

lemma is_running_init: "\<not> is_running (init fs)"
  by (simp add: is_running_def init_def)

lemma cancel_playback_never_started:
  "run_task s = None \<Longrightarrow> cancel_playback snk wait s = Some (Returned, s)"
  by (simp add: cancel_playback_def)

lemma cancel_playback_wait_after_completion:
  "run_task s = Some t \<Longrightarrow> threads s ! t = Finished Returned \<Longrightarrow> \<not> cancelled s \<Longrightarrow>
     cancel_playback snk True s = Some (Returned, s)"
  by (simp add: cancel_playback_def result_finished)

lemma result_run_task:
  assumes "result snk t s = Some (r, s')"
  shows "run_task s' = run_task s"
proof -
  have W: "run_task s0 = run_task s \<Longrightarrow> run_task (worker_step snk s0) = run_task s" for s0
    by (cases snk s0 rule: worker_step_shape)
       (auto dest: send_current_fields advance_index_fields)
  show ?thesis
    by (rule result_preserves [where I = "\<lambda>a. run_task a = run_task s", OF W assms refl])
qed

lemma cancel_playback_wait_stops:
  assumes "\<not> cancelled s" and "cancel_playback snk True s = Some (Returned, s')"
  shows "\<not> is_running s'"
proof (cases "run_task s")
  case None
  with assms show ?thesis by (simp add: cancel_playback_def is_running_def)
next
  case (Some t)
  with assms obtain s1 where r: "result snk t (s\<lparr>cancelled := True\<rparr>) = Some (Returned, s1)"
    and s': "s' = s1\<lparr>cancelled := False\<rparr>"
    by (auto simp: cancel_playback_def split: option.splits outcome.splits)
  from result_stored [OF r] have "threads s1 ! t = Finished Returned" by simp
  moreover from result_run_task [OF r] Some have "run_task s1 = Some t" by simp
  ultimately show ?thesis using s' by (simp add: is_running_def)
qed

lemma step_one_frame_empty: "frames s = [] \<Longrightarrow> step_one_frame snk s = (Raised IndexError, s)"
  by (auto simp: step_one_frame_def getitem_def)

lemma send_current_empty: "frames s = [] \<Longrightarrow> send_current snk s = (Raised IndexError, s)"
  by (auto simp: send_current_def getitem_def)

lemma empty_inv_update:
  "empty_inv s \<Longrightarrow> f \<noteq> Finished (Raised ZeroDivisionError) \<Longrightarrow> f \<noteq> Running AtAdvance \<Longrightarrow>
     empty_inv (s\<lparr>threads := (threads s)[t := f]\<rparr>)"
  by (auto simp: empty_inv_def dest: set_update_subset_insert [THEN subsetD])

lemma empty_inv_flag: "empty_inv s \<Longrightarrow> empty_inv (s\<lparr>cancelled := b\<rparr>)"
  by (simp add: empty_inv_def)

lemma empty_inv_reset: "empty_inv s \<Longrightarrow> empty_inv (s\<lparr>frame_index := 0\<rparr>)"
  by (simp add: empty_inv_def)

lemma empty_inv_submit:
  "empty_inv s \<Longrightarrow> \<not> is_running s \<Longrightarrow>
     empty_inv (s\<lparr>threads := threads s @ [Pending], run_task := Some (length (threads s))\<rparr>)"
  by (auto simp: empty_inv_def)

lemma step_one_frame_empty_inv:
  "empty_inv s \<Longrightarrow> step_one_frame snk s = (r, s1) \<Longrightarrow> empty_inv s1"
  by (simp add: empty_inv_def step_one_frame_empty)

lemma worker_step_empty_inv:
  assumes "empty_inv s"
  shows "empty_inv (worker_step snk s)"
proof (cases snk s rule: worker_step_shape)
  case idle
  with assms show ?thesis by simp
next
  case (move t p)
  with empty_inv_update [OF assms, of "Running p" t] show ?thesis by simp
next
  case (advance t r s1)
  from next_work_Some [OF advance(1)] advance(3) have "Running AtAdvance \<in> set (threads s)"
    by (metis nth_mem)
  with assms have False by (auto simp: empty_inv_def)
  then show ?thesis ..
next
  case (clear t)
  with assms show ?thesis
    by (auto simp: empty_inv_def dest: set_update_subset_insert [THEN subsetD])
next
  case (emit t r s1)
  from assms have "send_current snk s = (Raised IndexError, s)"
    by (simp add: empty_inv_def send_current_empty)
  with emit(2) have "r = Raised IndexError" and "s1 = s" by simp_all
  with emit(4) have "worker_step snk s = s\<lparr>threads := (threads s)[t := Finished (Raised IndexError)]\<rparr>"
    by simp
  with empty_inv_update [OF assms, of "Finished (Raised IndexError)" t] show ?thesis by simp
qed

lemma run_calls_empty_inv:
  assumes "run_calls snk cs s = Some s'" and "empty_inv s"
  shows "empty_inv s'"
  using worker_step_empty_inv step_one_frame_empty_inv empty_inv_flag empty_inv_reset
    empty_inv_submit assms
  by (rule run_calls_preserves [where I = empty_inv])

lemma cancel_playback_run_task:
  assumes "cancel_playback snk wait s = Some (r, s')"
  shows "run_task s' = run_task s"
proof -
  have W: "run_task s0 = run_task s \<Longrightarrow> run_task (worker_step snk s0) = run_task s" for s0
    by (cases snk s0 rule: worker_step_shape)
       (auto dest: send_current_fields advance_index_fields)
  have C: "run_task s0 = run_task s \<Longrightarrow> run_task (s0\<lparr>cancelled := b\<rparr>) = run_task s" for s0 b
    by simp
  show ?thesis
    by (rule cancel_playback_preserves [where I = "\<lambda>a. run_task a = run_task s", OF W C assms refl])
qed

lemma cancel_playback_outcome:
  assumes "cancel_playback snk wait s = Some (r, s')"
  shows "r = Returned \<or> r = Raised CancelledError \<or>
         (\<exists>t. run_task s' = Some t \<and> threads s' ! t = Finished r)"
proof (cases r)
  case Returned
  then show ?thesis by simp
next
  case (Raised e)
  with assms obtain t where t: "run_task s = Some t"
    and res: "result snk t (s\<lparr>cancelled := True\<rparr>) = Some (Raised e, s')"
    by (auto simp: cancel_playback_def split: option.splits outcome.splits if_splits)
  from cancel_playback_run_task [OF assms] t have "run_task s' = Some t" by simp
  with result_stored [OF res] Raised show ?thesis by auto
qed


subsection \<open>A stop-and-wait on a scheduler with frames\<close>





lemma stepped_fields [simp]:
  "threads (stepped s) = threads s" "run_task (stepped s) = run_task s"
  "cancelled (stepped s) = cancelled s" "frames (stepped s) = frames s"
  by (simp_all add: stepped_def)





subsection \<open>Stepping a stopped scheduler\<close>






subsection \<open>Evaluating the model\<close>

lemmas model_defs = init_def play_def step_def pause_def reset_def
          cancel_playback_def run_playback_def submit_def is_running_def worker_step_def
          step_one_frame_def send_current_def advance_index_def getitem_def py_mod_def
          send_frame_def accepting_def result.simps

subsection \<open>Cancelling an idle scheduler\<close>

text \<open>
  C1 says that \<^verbatim>\<open>cancel_playback\<close> on an idle scheduler changes nothing and raises
  nothing, for \<^verbatim>\<open>wait=True\<close> and \<^verbatim>\<open>wait=False\<close>, also after a worker has run to
  completion. That holds where no task was ever submitted
  (\<open>cancel_playback_never_started\<close>) and for \<^verbatim>\<open>wait=True\<close> after a worker that returned
  (\<open>cancel_playback_wait_after_completion\<close>). The code at the remaining case: after
  \<^verbatim>\<open>run_playback()\<close> and \<^verbatim>\<open>pause()\<close> the scheduler is idle, and \<^verbatim>\<open>cancel_playback()\<close>
  (\<^verbatim>\<open>wait=False\<close>) then sets the cancellation flag and leaves it set, since the guard
  tests the task handle, which is never cleared, and not \<open>is_running\<close>. The worker of
  the next \<^verbatim>\<open>run_playback()\<close> finds the flag, clears it and ends without sending a
  frame.
\<close>

theorem cancel_after_completion_leaves_flag_set:
  "run_calls accepting [RunPlayback False, Tick, Tick, Tick, Pause] (init three_frames) = Some paused \<and>
   \<not> is_running paused \<and>
   cancel_playback accepting False paused = Some (Returned, paused\<lparr>cancelled := True\<rparr>) \<and>
   paused\<lparr>cancelled := True\<rparr> \<noteq> paused \<and>
   run_calls accepting [CancelPlayback False, RunPlayback False, Tick, Tick, Tick, Tick] paused =
     Some (paused\<lparr>threads := [Finished Returned, Finished Returned], run_task := Some 1\<rparr>)"
  by (simp add: paused_def three_frames_def model_defs)

subsection \<open>The worker's exit\<close>

text \<open>
  C2 says that the worker, on observing the cancellation flag, clears the flag and the
  task handle. The handle is not cleared: here the worker is asked to stop before its
  first test of the flag, and after its exit \<^verbatim>\<open>_run_task\<close> still refers to its future.
\<close>

theorem worker_exit_keeps_handle_counterexample:
  "run_calls accepting [RunPlayback False, Tick, CancelPlayback False] (init three_frames) = Some observing \<and>
   worker_step accepting (worker_step accepting observing) =
     observing\<lparr>cancelled := False, threads := [Finished Returned]\<rparr> \<and>
   \<not> cancelled (worker_step accepting (worker_step accepting observing)) \<and>
   run_task (worker_step accepting (worker_step accepting observing)) = Some 0 \<and>
   run_task (worker_step accepting (worker_step accepting observing)) \<noteq> None"
  by (simp add: observing_def three_frames_def model_defs)

text \<open>
  C2, as the code has it. When the worker observes the cancellation flag it leaves its
  loop, clears the flag and ends: its future is finished without an exception. The task
  handle is left as it was; where it refers to that future, \<open>is_running\<close> is false
  afterwards, which is how the scheduler is idle again. Nothing is sent and the index does
  not move.
\<close>

theorem worker_exit_clears_flag_only:
  assumes "next_work (threads s) = Some t" and "threads s ! t = Running AtCheck" and "cancelled s"
  shows "worker_step snk (worker_step snk s) =
           s\<lparr>cancelled := False, threads := (threads s)[t := Finished Returned]\<rparr> \<and>
         \<not> cancelled (worker_step snk (worker_step snk s)) \<and>
         run_task (worker_step snk (worker_step snk s)) = run_task s \<and>
         threads (worker_step snk (worker_step snk s)) ! t = Finished Returned \<and>
         (run_task s = Some t \<longrightarrow> \<not> is_running (worker_step snk (worker_step snk s)))"
proof -
  from next_work_Some [OF assms(1)] have lt: "t < length (threads s)" by simp
  let ?s1 = "s\<lparr>threads := (threads s)[t := Running AtClear]\<rparr>"
  have one: "worker_step snk s = ?s1"
    using worker_step_check [OF assms(1,2)] assms(3) by simp
  have "next_work (threads ?s1) = Some t" using assms(1) by (simp add: next_work_update)
  moreover have "threads ?s1 ! t = Running AtClear" using lt by simp
  ultimately have "worker_step snk ?s1 =
      ?s1\<lparr>cancelled := False, threads := (threads ?s1)[t := Finished Returned]\<rparr>"
    by (rule worker_step_clear)
  with one have two: "worker_step snk (worker_step snk s) =
      s\<lparr>cancelled := False, threads := (threads s)[t := Finished Returned]\<rparr>" by simp
  with lt show ?thesis by (simp add: is_running_def)
qed

text \<open>
  The hypotheses of C2's theorem hold in the state \<open>observing\<close>.
\<close>

theorem worker_exit_clears_flag_only_witness:
  "next_work (threads observing) = Some 0 \<and> threads observing ! 0 = Running AtCheck \<and>
   cancelled observing \<and>
   worker_step accepting (worker_step accepting observing) =
     observing\<lparr>cancelled := False, threads := [Finished Returned]\<rparr> \<and>
   run_task (worker_step accepting (worker_step accepting observing)) = Some 0 \<and>
   \<not> is_running (worker_step accepting (worker_step accepting observing))"
proof -
  have a: "next_work (threads observing) = Some 0" by (simp add: observing_def)
  have b: "threads observing ! 0 = Running AtCheck" by (simp add: observing_def)
  have c: "cancelled observing" by (simp add: observing_def)
  have d: "run_task observing = Some 0" by (simp add: observing_def)
  have e: "(threads observing)[0 := Finished Returned] = [Finished Returned]" by (simp add: observing_def)
  from a b c d e worker_exit_clears_flag_only [OF a b c, of accepting] show ?thesis by auto
qed

subsection \<open>Is the scheduler running after a stop-and-wait\<close>

text \<open>
  C3 says that \<open>is_running\<close> is false after construction and after any \<^verbatim>\<open>pause()\<close> or
  \<^verbatim>\<open>cancel_playback(wait=True)\<close> returns, whatever the state before. It is false after
  construction (\<open>is_running_init\<close>) and after a stop-and-wait that found the flag clear
  (\<open>cancel_playback_wait_stops\<close>). The code at the remaining case: once
  \<^verbatim>\<open>cancel_playback()\<close> has set the flag and the sleeping worker has not yet seen it,
  \<^verbatim>\<open>pause()\<close> and \<^verbatim>\<open>cancel_playback(wait=True)\<close> return at \<^verbatim>\<open>if self._cancelled: return\<close>
  without waiting, and \<open>is_running\<close> is still true.
\<close>

theorem pause_returns_while_worker_runs:
  "run_calls accepting [RunPlayback False, Tick, Tick, Tick, Tick, CancelPlayback False]
     (init three_frames) = Some stopping \<and>
   pause accepting stopping = Some (Returned, stopping) \<and>
   cancel_playback accepting True stopping = Some (Returned, stopping) \<and>
   is_running stopping"
  by (simp add: stopping_def three_frames_def model_defs)

text \<open>
  What the early return lets happen: \<^verbatim>\<open>step()\<close> called while the stop request is pending
  does not wait either, and runs beside the worker. Here the worker has sent frame 0 and
  not yet advanced the index when the stop is requested; \<^verbatim>\<open>step()\<close> sends frame 0 again,
  and the two advances skip frame 1. In the second history the worker sends a frame
  between two steps.
\<close>

lemma step_races_unstopped_worker:
  "run_calls accepting [RunPlayback False, Tick, Tick, Tick, CancelPlayback False, Step, Tick]
     (init three_frames) =
   Some \<lparr>threads = [Running AtSleep], run_task = Some 0, cancelled = True, frame_index = 2,
         frames = three_frames, sent = [(0, 10), (0, 10)]\<rparr> \<and>
   run_calls accepting [RunPlayback False, Tick, Tick, CancelPlayback False, Step, Tick, Tick, Step]
     (init three_frames) =
   Some \<lparr>threads = [Running AtSleep], run_task = Some 0, cancelled = True, frame_index = 0,
         frames = three_frames, sent = [(0, 10), (1, 20), (2, 30)]\<rparr>"
  by (simp add: three_frames_def model_defs)

subsection \<open>Starting a second worker\<close>

text \<open>
  C4. Calling \<^verbatim>\<open>run_playback\<close> while a worker is active (\<open>is_running\<close> true) raises
  \<^verbatim>\<open>RuntimeError\<close> to the caller at once, for either value of \<^verbatim>\<open>block\<close>, and leaves
  the scheduler as it was: nothing is queued and no second worker is started.
\<close>

theorem run_playback_while_running_raises:
  "is_running s \<Longrightarrow> run_playback snk block s = Some (Raised RuntimeError, s)"
  by (simp add: run_playback_def)

theorem run_playback_while_running_raises_witness:
  "is_running started \<and> run_playback accepting False started = Some (Raised RuntimeError, started)"
proof -
  have h: "is_running started" by (simp add: started_def is_running_def)
  from h run_playback_while_running_raises [OF h, of accepting False] show ?thesis by simp
qed

subsection \<open>One step, one emission, one advance\<close>




text \<open>
  The case of a dead worker: the sink refuses index 1 only. \<^verbatim>\<open>step()\<close> sends frame 0, a
  worker started then dies at frame 1, and \<^verbatim>\<open>reset()\<close> returns to frame 0, which the sink
  would accept. The next \<^verbatim>\<open>step()\<close> raises the worker's exception out of its stop-and-wait,
  sends nothing, and leaves the cancellation flag set.
\<close>

lemma step_after_dead_worker:
  "run_calls (refusing_at 1) [Step, RunPlayback False, Tick, Tick, Tick, Reset] (init three_frames) =
     Some \<lparr>threads = [Finished (Raised SinkError)], run_task = Some 0, cancelled = False,
           frame_index = 0, frames = three_frames, sent = [(0, 10)]\<rparr> \<and>
   offer (refusing_at 1)
     \<lparr>threads = [Finished (Raised SinkError)], run_task = Some 0, cancelled = False,
      frame_index = 0, frames = three_frames, sent = [(0, 10)]\<rparr> = Returned \<and>
   step (refusing_at 1)
     \<lparr>threads = [Finished (Raised SinkError)], run_task = Some 0, cancelled = False,
      frame_index = 0, frames = three_frames, sent = [(0, 10)]\<rparr> =
     Some (Raised SinkError,
           \<lparr>threads = [Finished (Raised SinkError)], run_task = Some 0, cancelled = True,
            frame_index = 0, frames = three_frames, sent = [(0, 10)]\<rparr>)"
  by (simp add: refusing_at_def offer_def three_frames_def model_defs)

subsection \<open>Callers that race each other\<close>

text \<open>
  C8 says that \<^verbatim>\<open>play\<close>, \<^verbatim>\<open>pause\<close> and \<^verbatim>\<open>step\<close> serialize through one lock, so that in every
  interleaving of concurrent callers at most one worker is active and \<^verbatim>\<open>play()\<close> has stopped
  the previous worker before it starts a new one. The code takes the lock for the
  stop-and-wait only: \<^verbatim>\<open>play()\<close> calls \<^verbatim>\<open>run_playback()\<close> after it has released the lock, and
  \<^verbatim>\<open>run_playback()\<close> tests \<open>is_running\<close> and then submits. The code at two threads that call
  \<^verbatim>\<open>play()\<close> on a fresh scheduler and both pass the test before either submits: both
  submit a worker and return normally, and two futures are unfinished. Likewise with the
  first worker already sending when the second caller submits. A stop request then ends
  the first worker only: it clears the flag on its way out, and the second worker starts
  and sends.
\<close>

theorem two_callers_of_play_submit_two_workers:
  "interleave accepting [Caller 0, Caller 1, Caller 0, Caller 1, Caller 0, Caller 1]
     ([AtLock, AtLock], init three_frames) =
     Some ([Left Returned, Left Returned], two_submitted) \<and>
   unfinished two_submitted = 2 \<and>
   interleave accepting [Caller 0, Caller 0, Caller 1, Caller 1, Caller 0, Worker, Worker, Worker, Caller 1]
     ([AtLock, AtLock], init three_frames) =
     Some ([Left Returned, Left Returned],
           two_submitted\<lparr>threads := [Running AtAdvance, Pending], sent := [(0, 10)]\<rparr>) \<and>
   run_calls accepting [CancelPlayback False, Tick, Tick, Tick, Tick, Tick, Tick] two_submitted =
     Some (two_submitted\<lparr>threads := [Finished Returned, Running AtAdvance], sent := [(0, 10)]\<rparr>) \<and>
   is_running (two_submitted\<lparr>threads := [Finished Returned, Running AtAdvance], sent := [(0, 10)]\<rparr>)"
  by (simp add: two_submitted_def unfinished_def three_frames_def model_defs)

text \<open>That state is none that one controlling thread can bring about.\<close>

lemma two_submitted_not_pool_ok: "\<not> pool_ok two_submitted"
  by (simp add: two_submitted_def pool_ok_def)

text \<open>
  When the second caller starts after the first has returned, the lock and the wait do
  what C8 says: the first worker is stopped, then the second is submitted.
\<close>

lemma second_play_after_first:
  "interleave accepting [Caller 0, Caller 0, Caller 0, Caller 1, Caller 1, Caller 1]
     ([AtLock, AtLock], init three_frames) =
     Some ([Left Returned, Left Returned],
           two_submitted\<lparr>threads := [Finished Returned, Pending]\<rparr>) \<and>
   unfinished (two_submitted\<lparr>threads := [Finished Returned, Pending]\<rparr>) = 1"
  by (simp add: two_submitted_def unfinished_def three_frames_def model_defs)

subsection \<open>The frame index stays in range\<close>

text \<open>
  C6. For a frame sequence of length \<open>N > 0\<close> the current frame index is in \<open>[0, N)\<close>
  after construction and after every operation: whatever methods the controlling thread
  calls (play, step, pause, run_playback, cancel_playback, reset), however the worker's
  moves fall between them, and whether the calls return or raise.
\<close>

theorem frame_index_in_range:
  assumes "fs \<noteq> []" and "run_calls snk cs (init fs) = Some s"
  shows "frames s = fs \<and> 0 \<le> frame_index s \<and> frame_index s < int (length fs)"
proof -
  have "index_inv fs (init fs)" by (simp add: index_inv_def init_def)
  with assms(2) have "index_inv fs s" by (rule run_calls_index_inv)
  with assms(1) show ?thesis by (simp add: index_inv_def)
qed

theorem frame_index_in_range_witness:
  "three_frames \<noteq> [] \<and>
   run_calls accepting [Play, Tick, Tick, Tick, Step, Reset, Step, Pause] (init three_frames) =
     Some \<lparr>threads = [Finished Returned], run_task = Some 0, cancelled = False, frame_index = 1,
           frames = three_frames, sent = [(0, 10), (1, 20), (0, 10)]\<rparr> \<and>
   (0::int) \<le> 1 \<and> (1::int) < int (length three_frames)"
proof -
  have ne: "three_frames \<noteq> []" by (simp add: three_frames_def)
  have run: "run_calls accepting [Play, Tick, Tick, Tick, Step, Reset, Step, Pause] (init three_frames) =
     Some \<lparr>threads = [Finished Returned], run_task = Some 0, cancelled = False, frame_index = 1,
           frames = three_frames, sent = [(0, 10), (1, 20), (0, 10)]\<rparr>"
    by (simp add: three_frames_def model_defs)
  from ne run frame_index_in_range [OF ne run] show ?thesis by simp
qed

subsection \<open>Playing an empty sequence\<close>

text \<open>
  C7 says that \<^verbatim>\<open>play()\<close> on an empty sequence is a no-op or fails fast with an error
  reported to the caller. On a fresh scheduler over no frames it is neither: it returns
  normally and the scheduler has a task submitted.
\<close>

theorem play_on_empty_counterexample:
  "play accepting (init []) = Some (Returned, empty_started) \<and> empty_started \<noteq> init []"
  by (simp add: empty_started_def model_defs)

text \<open>
  C7, as the code has it. On a scheduler over the empty sequence, in any state that calls
  and worker moves can bring it to, \<^verbatim>\<open>play()\<close> returns (it does not hang), what it raises,
  if anything, is not a division by zero, and no frame is sent and the index stays 0. On a
  fresh scheduler it returns normally with a worker submitted; that worker's first
  iteration raises \<^verbatim>\<open>IndexError\<close>, which is stored in its future and not reported to the
  caller of \<^verbatim>\<open>play()\<close>.
\<close>

theorem play_on_empty_sequence:
  assumes "run_calls snk cs (init []) = Some s"
  shows "(\<exists>r s'. play snk s = Some (r, s') \<and> r \<noteq> Raised ZeroDivisionError \<and>
                 sent s' = [] \<and> frame_index s' = 0) \<and>
         play snk (init []) = Some (Returned, (init [])\<lparr>threads := [Pending], run_task := Some 0\<rparr>) \<and>
         worker_step snk (worker_step snk (worker_step snk
             ((init [])\<lparr>threads := [Pending], run_task := Some 0\<rparr>))) =
           (init [])\<lparr>threads := [Finished (Raised IndexError)], run_task := Some 0\<rparr>"
proof -
  have "empty_inv (init [])" by (simp add: empty_inv_def init_def)
  with assms have e: "empty_inv s" by (rule run_calls_empty_inv)
  from assms pool_ok_init have p: "pool_ok s" by (rule run_calls_pool_ok)
  from cancel_playback_returns [OF p] obtain r1 s1
    where c: "cancel_playback snk True s = Some (r1, s1)" by blast
  have e1: "empty_inv s1"
    using worker_step_empty_inv empty_inv_flag c e by (rule cancel_playback_preserves)
  have p1: "pool_ok s1"
    using worker_step_pool_ok pool_ok_flag c p by (rule cancel_playback_preserves)
  have r1: "r1 \<noteq> Raised ZeroDivisionError"
  proof
    assume z: "r1 = Raised ZeroDivisionError"
    with cancel_playback_outcome [OF c] obtain t
      where t: "run_task s1 = Some t" and f: "threads s1 ! t = Finished (Raised ZeroDivisionError)"
      by auto
    from p1 t have "t < length (threads s1)" by (auto simp: pool_ok_def)
    with f have "Finished (Raised ZeroDivisionError) \<in> set (threads s1)" by (metis nth_mem)
    with e1 show False by (auto simp: empty_inv_def)
  qed
  have first: "\<exists>r s'. play snk s = Some (r, s') \<and> r \<noteq> Raised ZeroDivisionError \<and>
                 sent s' = [] \<and> frame_index s' = 0"
  proof (cases r1)
    case Returned
    with c e1 show ?thesis
      by (auto simp: play_def run_playback_def submit_def empty_inv_def)
  next
    case (Raised x)
    with c e1 r1 show ?thesis by (auto simp: play_def empty_inv_def)
  qed
  have second: "play snk (init []) = Some (Returned, (init [])\<lparr>threads := [Pending], run_task := Some 0\<rparr>)"
    by (simp add: play_def cancel_playback_def run_playback_def submit_def is_running_def init_def)
  have third: "worker_step snk (worker_step snk (worker_step snk
             ((init [])\<lparr>threads := [Pending], run_task := Some 0\<rparr>))) =
           (init [])\<lparr>threads := [Finished (Raised IndexError)], run_task := Some 0\<rparr>"
    by (simp add: worker_step_def init_def send_current_def getitem_def)
  from first second third show ?thesis by blast
qed

text \<open>
  The hypothesis of C7's theorem holds after \<^verbatim>\<open>play()\<close> and three moves of the worker;
  a second \<^verbatim>\<open>play()\<close> then raises the stored \<^verbatim>\<open>IndexError\<close>.
\<close>

theorem play_on_empty_sequence_witness:
  "run_calls accepting [Play, Tick, Tick, Tick] (init []) = Some empty_died \<and>
   play accepting empty_died = Some (Raised IndexError, empty_died\<lparr>cancelled := True\<rparr>) \<and>
   play accepting (init []) = Some (Returned, empty_started) \<and>
   worker_step accepting (worker_step accepting (worker_step accepting empty_started)) = empty_died"
proof -
  have run: "run_calls accepting [Play, Tick, Tick, Tick] (init []) = Some empty_died"
    by (simp add: empty_died_def model_defs)
  have pl: "play accepting empty_died = Some (Raised IndexError, empty_died\<lparr>cancelled := True\<rparr>)"
    by (simp add: empty_died_def model_defs)
  have es: "(init [])\<lparr>threads := [Pending], run_task := Some 0\<rparr> = empty_started"
    by (simp add: empty_started_def init_def)
  have ed: "(init [])\<lparr>threads := [Finished (Raised IndexError)], run_task := Some 0\<rparr> = empty_died"
    by (simp add: empty_died_def init_def)
  from play_on_empty_sequence [OF run] run pl show ?thesis unfolding es ed by simp
qed

subsection \<open>A sink that raises\<close>

text \<open>
  C9. If \<^verbatim>\<open>send_frame\<close> raises during one emit-and-advance, the frame index (indeed the
  whole scheduler) is left as it was and the exception goes to whoever invoked the
  emit-and-advance: \<^verbatim>\<open>_step_one_frame\<close> raises it; \<^verbatim>\<open>step()\<close> raises it to its caller;
  \<^verbatim>\<open>_run\<close> on the calling thread raises it; \<^verbatim>\<open>_run\<close> on the worker ends with it, stored
  in the worker's future.
\<close>

theorem emission_failure_keeps_index:
  assumes "getitem (frames s) (frame_index s) = Inr f"
    and "snk (sent s) (frame_index s) f = Raised e"
  shows "step_one_frame snk s = (Raised e, s) \<and>
         (\<forall>s0. cancel_playback snk True s0 = Some (Returned, s) \<longrightarrow> step snk s0 = Some (Raised e, s)) \<and>
         (\<not> cancelled s \<longrightarrow> run snk s = Some (Raised e, s)) \<and>
         (\<forall>t. next_work (threads s) = Some t \<and> threads s ! t = Running AtStep \<longrightarrow>
              worker_step snk s = s\<lparr>threads := (threads s)[t := Finished (Raised e)]\<rparr> \<and>
              frame_index (worker_step snk s) = frame_index s)"
proof -
  from assms have one: "step_one_frame snk s = (Raised e, s)"
    by (simp add: step_one_frame_def send_frame_def)
  have two: "step snk s0 = Some (Raised e, s)" if "cancel_playback snk True s0 = Some (Returned, s)" for s0
    using that one by (simp add: step_def)
  have three: "run snk s = Some (Raised e, s)" if "\<not> cancelled s"
    using that one by (subst run.simps) simp
  have four: "worker_step snk s = s\<lparr>threads := (threads s)[t := Finished (Raised e)]\<rparr>"
    if "next_work (threads s) = Some t" and "threads s ! t = Running AtStep" for t
    using that assms by (simp add: worker_step_def send_current_def send_frame_def)
  from one two three four show ?thesis by simp
qed

theorem emission_failure_keeps_index_witness:
  "getitem (frames (init three_frames)) (frame_index (init three_frames)) = Inr 10 \<and>
   refusing (sent (init three_frames)) (frame_index (init three_frames)) 10 = Raised SinkError \<and>
   step_one_frame refusing (init three_frames) = (Raised SinkError, init three_frames) \<and>
   step refusing (init three_frames) = Some (Raised SinkError, init three_frames) \<and>
   run refusing (init three_frames) = Some (Raised SinkError, init three_frames)"
proof -
  have g: "getitem (frames (init three_frames)) (frame_index (init three_frames)) = Inr 10"
    by (simp add: init_def three_frames_def getitem_def)
  have r: "refusing (sent (init three_frames)) (frame_index (init three_frames)) 10 = Raised SinkError"
    by (simp add: refusing_def)
  have c: "cancel_playback refusing True (init three_frames) = Some (Returned, init three_frames)"
    by (simp add: cancel_playback_def init_def)
  have n: "\<not> cancelled (init three_frames)" by (simp add: init_def)
  from g r c n
    emission_failure_keeps_index [where s = "init three_frames" and snk = refusing, OF g r]
  show ?thesis by simp
qed

subsection \<open>Reset\<close>

text \<open>
  C10. \<^verbatim>\<open>reset()\<close> sets the frame index to 0 and changes nothing else: the frame
  sequence, the cancellation flag, the task handle and the thread pool are as before (and
  so are what the sink has received and \<open>is_running\<close>), in every state.
\<close>

theorem reset_changes_index_only:
  "frame_index (reset s) = 0 \<and> frames (reset s) = frames s \<and> cancelled (reset s) = cancelled s \<and>
   run_task (reset s) = run_task s \<and> threads (reset s) = threads s \<and> sent (reset s) = sent s \<and>
   is_running (reset s) = is_running s"
  by (simp add: reset_def is_running_def split: option.splits)

end
